theory Spec2Isabelle
  imports Complex_Main "HOL-Library.Word"
begin

unbundle bit_operations_syntax

section \<open>utils.js: the host interface\<close>

text \<open>
  The functions of utils.js receive the Netscript object \<open>ns\<close> and only query it. The
  record below holds the queries they use, each as a function of its arguments; the
  queries are taken to return normally on the hostnames they are asked about.
  RAM amounts are JavaScript Numbers: the type \<open>'n\<close> is left open, and \<open>hasRam\<close> only asks
  for a subtraction and an order on it, so that nothing depends on how the host rounds.
  A count of ports is an integer.
\<close>

record 'n ns =
  getHostname :: string
  scan :: "string \<Rightarrow> string list"
  fileExists :: "string \<Rightarrow> string \<Rightarrow> bool"
  getServerNumPortsRequired :: "string \<Rightarrow> int"
  getServerMaxRam :: "string \<Rightarrow> 'n"
  getServerUsedRam :: "string \<Rightarrow> 'n"

text \<open>
  The calls with an effect that utils.js makes on the host, in the order they are made:
  \<open>ns.print\<close>, \<open>ns.nuke\<close>, and the call \<open>runScript(server)\<close> of a crack function taken out
  of the \<open>cracks\<close> object. A crack function is a value of the open type \<open>'f\<close>.
\<close>

datatype 'f effect = Print string | Nuke string | RunScript 'f string

text \<open>
  The \<open>cracks\<close> object maps file names to crack functions. It is the list of its entries
  in the order \<open>Object.keys\<close> enumerates them; the keys of an object are distinct.
\<close>

type_synonym 'f cracks = "(string \<times> 'f) list"

definition Object_keys :: "(string \<times> 'v) list \<Rightarrow> string list" where
  "Object_keys obj = map fst obj"

definition homeServer :: string where
  "homeServer = ''home''"

subsection \<open>penetrate, getNumCracks, canPenetrate, hasRam, getRootAccess\<close>

text \<open>
  The loop of \<open>penetrate\<close> runs over \<open>Object.keys(cracks)\<close> and reads \<open>cracks[file]\<close> for
  each key; over the list of entries that is one step per entry, \<open>file\<close> its key and
  \<open>runScript\<close> its value.
\<close>

fun penetrate_loop :: "'n ns \<Rightarrow> string \<Rightarrow> 'f cracks \<Rightarrow> 'f effect list" where
  "penetrate_loop ns server [] = []"
| "penetrate_loop ns server ((file, runScript) # rest) =
     (if fileExists ns file homeServer
      then RunScript runScript server # penetrate_loop ns server rest
      else penetrate_loop ns server rest)"

definition penetrate :: "'n ns \<Rightarrow> string \<Rightarrow> 'f cracks \<Rightarrow> 'f effect list" where
  "penetrate ns server cracks =
     Print (''Penetrating '' @ server) # penetrate_loop ns server cracks"

definition getNumCracks :: "'n ns \<Rightarrow> 'f cracks \<Rightarrow> nat" where
  "getNumCracks ns cracks =
     length (filter (\<lambda>file. fileExists ns file homeServer) (Object_keys cracks))"

definition canPenetrate :: "'n ns \<Rightarrow> string \<Rightarrow> 'f cracks \<Rightarrow> bool" where
  "canPenetrate ns server cracks =
     (let numCracks = getNumCracks ns cracks;
          reqPorts = getServerNumPortsRequired ns server
      in int numCracks \<ge> reqPorts)"

text \<open>
  \<open>useMax\<close> has the default \<open>false\<close>: an argument left out is \<open>None\<close>.
\<close>

definition hasRam :: "('n::{minus,order}) ns \<Rightarrow> string \<Rightarrow> 'n \<Rightarrow> bool option \<Rightarrow> bool" where
  "hasRam ns server scriptRam useMaxArg =
     (let useMax = (case useMaxArg of None \<Rightarrow> False | Some b \<Rightarrow> b);
          maxRam = getServerMaxRam ns server;
          usedRam = getServerUsedRam ns server;
          ramAvail = (if useMax then maxRam else maxRam - usedRam)
      in ramAvail > scriptRam)"

definition getRootAccess :: "'n ns \<Rightarrow> string \<Rightarrow> 'f cracks \<Rightarrow> 'f effect list" where
  "getRootAccess ns server cracks =
     (let requiredPorts = getServerNumPortsRequired ns server
      in (if requiredPorts > 0 then penetrate ns server cracks else [])
         @ [Print (''Gaining root access on '' @ server), Nuke server])"

fun is_RunScript :: "'f effect \<Rightarrow> bool" where
  "is_RunScript (RunScript f s) = True"
| "is_RunScript _ = False"

fun is_Nuke :: "'f effect \<Rightarrow> bool" where
  "is_Nuke (Nuke s) = True"
| "is_Nuke _ = False"

subsection \<open>getNetworkNodes\<close>

text \<open>
  \<open>visited\<close> is a plain object used as a set: \<open>visited[node] = node\<close> stores the hostname
  under its own name, and \<open>!visited[node]\<close> asks whether the value found under the name is
  falsy. The object is the list of its own keys, in the order they were added (the value of
  a key is the key). Reading a name goes through the prototype of the object when the name
  is not a key of its own: the names below are the properties every object inherits from
  \<open>Object.prototype\<close>, each a function or an object, so truthy.
\<close>

definition Object_prototype_keys :: "string list" where
  "Object_prototype_keys =
     [''constructor'', ''__defineGetter__'', ''__defineSetter__'', ''hasOwnProperty'',
      ''__lookupGetter__'', ''__lookupSetter__'', ''isPrototypeOf'',
      ''propertyIsEnumerable'', ''toString'', ''valueOf'', ''__proto__'',
      ''toLocaleString'']"

text \<open>
  \<open>visited[node]\<close> is truthy: a key of its own holds the hostname, truthy unless it is the
  empty string; a name that is no key is looked up in the prototype.
\<close>

definition visited_truthy :: "string list \<Rightarrow> string \<Rightarrow> bool" where
  "visited_truthy visited node =
     (if node \<in> set visited then node \<noteq> '''' else node \<in> set Object_prototype_keys)"

text \<open>
  \<open>visited[node] = node\<close>: a new key is added after the others; assigning a string to
  \<open>__proto__\<close> changes nothing.
\<close>

definition visited_assign :: "string list \<Rightarrow> string \<Rightarrow> string list" where
  "visited_assign visited node =
     (if node = ''__proto__'' \<or> node \<in> set visited then visited else visited @ [node])"

text \<open>
  The stack is a list with its top at the head: \<open>stack.push(child)\<close> is \<open>child # stack\<close>,
  \<open>stack.pop()\<close> takes the head. The inner loop pushes the children in the order of
  \<open>neighbours\<close>.
\<close>

fun push_children :: "string list \<Rightarrow> string list \<Rightarrow> string list \<Rightarrow> string list" where
  "push_children visited [] stack = stack"
| "push_children visited (child # rest) stack =
     push_children visited rest
       (if \<not> visited_truthy visited child then child # stack else stack)"

text \<open>
  The while loop. It may run forever, so it is a partial function: \<open>None\<close> is the loop that
  never ends. When the stack is empty the result is \<open>Object.keys(visited)\<close> (the keys in
  the order they were added; keys that are array indices would come first, which changes
  the order of the result only).
\<close>

partial_function (option) dfs_loop ::
  "(string \<Rightarrow> string list) \<Rightarrow> string list \<Rightarrow> string list \<Rightarrow> string list option" where
  "dfs_loop scanf visited stack =
     (case stack of
        [] \<Rightarrow> Some visited
      | node # popped \<Rightarrow>
          if \<not> visited_truthy visited node then
            dfs_loop scanf (visited_assign visited node)
              (push_children (visited_assign visited node) (scanf node) popped)
          else dfs_loop scanf visited popped)"

definition getNetworkNodes :: "'n ns \<Rightarrow> string list option" where
  "getNetworkNodes ns = dfs_loop (scan ns) [] [getHostname ns]"

text \<open>
  A plain hostname is one the object \<open>visited\<close> handles as a set would: not empty, and
  not the name of a property of \<open>Object.prototype\<close>. The hosts reachable from a start
  node are those a path of \<open>scan\<close> steps leads to.
\<close>

definition plain_hostname :: "string \<Rightarrow> bool" where
  "plain_hostname h \<longleftrightarrow> h \<noteq> '''' \<and> h \<notin> set Object_prototype_keys"

definition reachable :: "(string \<Rightarrow> string list) \<Rightarrow> string \<Rightarrow> string set" where
  "reachable scanf origin = {v. (origin, v) \<in> {(u, w). w \<in> set (scanf u)}\<^sup>*}"

text \<open>A host for a given network: the current hostname and the neighbours of every host.\<close>

definition ns_network :: "string \<Rightarrow> (string \<Rightarrow> string list) \<Rightarrow> rat ns" where
  "ns_network host neighbours = \<lparr>
     getHostname = host,
     scan = neighbours,
     fileExists = (\<lambda>file h. False),
     getServerNumPortsRequired = (\<lambda>h. 0),
     getServerMaxRam = (\<lambda>h. 8),
     getServerUsedRam = (\<lambda>h. 0) \<rparr>"

text \<open>
  A purchased server can be given any name that is not empty: here home has bought a
  server and named it \<open>constructor\<close>.
\<close>

definition ns_constructor :: "rat ns" where
  "ns_constructor =
     ns_network ''home'' (\<lambda>h. if h = ''home'' then [''constructor''] else [''home''])"


subsection \<open>Example hosts\<close>

definition cracks_example :: "nat cracks" where
  "cracks_example = [(''BruteSSH.exe'', 0), (''FTPCrack.exe'', 1), (''relaySMTP.exe'', 2)]"

definition ns_example :: "rat ns" where
  "ns_example = \<lparr>
     getHostname = ''home'',
     scan = (\<lambda>h. if h = ''home'' then [''n00dles''] else [''home'']),
     fileExists = (\<lambda>file host. host = ''home'' \<and> (file = ''BruteSSH.exe'' \<or> file = ''relaySMTP.exe'')),
     getServerNumPortsRequired = (\<lambda>h. if h = ''n00dles'' then 0 else 2),
     getServerMaxRam = (\<lambda>h. 8),
     getServerUsedRam = (\<lambda>h. 5 / 2) \<rparr>"

section \<open>JavaScript values, Number to string, JSON.stringify\<close>

text \<open>
  A JavaScript value as port-utils.js meets it: what \<open>JSON.parse\<close> can return, and
  \<open>undefined\<close>, which a caller may pass as payload. Numbers are the integer-valued ones
  (a Number with a fraction is outside the model; an integer is written in decimal digits,
  as JavaScript writes the integers of magnitude below 10^21), strings are lists of code
  units below 256, and an object is the list of its own properties in property order, with
  distinct keys.
\<close>

datatype jsval =
    JUndefined
  | JNull
  | JBool bool
  | JNum int
  | JStr string
  | JArr "jsval list"
  | JObj "(string \<times> jsval) list"

datatype js_error = SyntaxError | TypeError | Unmodelled | OutOfFuel

text \<open>
  \<open>Number.prototype.toString(radix)\<close> on an integer: the digits of the magnitude, most
  significant first, after a minus sign for a negative number.
\<close>

definition digit_char :: "nat \<Rightarrow> char" where
  "digit_char d =
     (if d = 0 then CHR ''0''
      else if d = 1 then CHR ''1''
      else if d = 2 then CHR ''2''
      else if d = 3 then CHR ''3''
      else if d = 4 then CHR ''4''
      else if d = 5 then CHR ''5''
      else if d = 6 then CHR ''6''
      else if d = 7 then CHR ''7''
      else if d = 8 then CHR ''8''
      else if d = 9 then CHR ''9''
      else if d = 10 then CHR ''a''
      else if d = 11 then CHR ''b''
      else if d = 12 then CHR ''c''
      else if d = 13 then CHR ''d''
      else if d = 14 then CHR ''e''
      else CHR ''f'')"

function nat_digits :: "nat \<Rightarrow> nat \<Rightarrow> string" where
  "nat_digits radix n =
     (if n < radix \<or> radix < 2 then [digit_char n]
      else nat_digits radix (n div radix) @ [digit_char (n mod radix)])"
  by pat_completeness auto
termination
  by (relation "measure (\<lambda>(radix, n). n)") auto

declare nat_digits.simps [simp del]

definition Number_toString :: "nat \<Rightarrow> int \<Rightarrow> string" where
  "Number_toString radix i =
     (if i < 0 then CHR ''-'' # nat_digits radix (nat (- i)) else nat_digits radix (nat i))"

text \<open>
  \<open>QuoteJSONString\<close>: the quotation mark and the reverse solidus are escaped, the
  control characters below 0x20 have their short escape or \<open>\u00XX\<close> in lowercase.
\<close>

definition dquote :: char where
  "dquote = CHR 0x22"

definition backslash :: char where
  "backslash = CHR 0x5C"

definition escape_char :: "char \<Rightarrow> string" where
  "escape_char c =
     (if c = dquote then [backslash, dquote]
      else if c = backslash then [backslash, backslash]
      else if c = CHR 0x08 then [backslash, CHR ''b'']
      else if c = CHR 0x0C then [backslash, CHR ''f'']
      else if c = CHR 0x0A then [backslash, CHR ''n'']
      else if c = CHR 0x0D then [backslash, CHR ''r'']
      else if c = CHR 0x09 then [backslash, CHR ''t'']
      else if (of_char c :: nat) < 32 then
        [backslash, CHR ''u'', CHR ''0'', CHR ''0'',
         digit_char (of_char c div 16), digit_char (of_char c mod 16)]
      else [c])"

definition QuoteJSONString :: "string \<Rightarrow> string" where
  "QuoteJSONString s = dquote # concat (map escape_char s) @ [dquote]"

fun join_comma :: "string list \<Rightarrow> string" where
  "join_comma [] = []"
| "join_comma [s] = s"
| "join_comma (s # t # ss) = s @ CHR '','' # join_comma (t # ss)"

text \<open>
  \<open>JSON.stringify(value)\<close> with no replacer and no indentation. \<open>None\<close> is the result
  \<open>undefined\<close>: that of \<open>undefined\<close> itself. In an array \<open>undefined\<close> is written \<open>null\<close>; a
  property whose value is \<open>undefined\<close> is left out of its object.
\<close>

fun JSON_stringify :: "jsval \<Rightarrow> string option"
  and stringify_elements :: "jsval list \<Rightarrow> string list"
  and stringify_members :: "(string \<times> jsval) list \<Rightarrow> string list" where
  "JSON_stringify JUndefined = None"
| "JSON_stringify JNull = Some ''null''"
| "JSON_stringify (JBool b) = Some (if b then ''true'' else ''false'')"
| "JSON_stringify (JNum n) = Some (Number_toString 10 n)"
| "JSON_stringify (JStr s) = Some (QuoteJSONString s)"
| "JSON_stringify (JArr xs) = Some (CHR ''['' # join_comma (stringify_elements xs) @ '']'')"
| "JSON_stringify (JObj kvs) = Some (CHR ''{'' # join_comma (stringify_members kvs) @ ''}'')"
| "stringify_elements [] = []"
| "stringify_elements (x # xs) =
     (case JSON_stringify x of None \<Rightarrow> ''null'' | Some s \<Rightarrow> s) # stringify_elements xs"
| "stringify_members [] = []"
| "stringify_members ((k, v) # kvs) =
     (case JSON_stringify v of
        None \<Rightarrow> stringify_members kvs
      | Some s \<Rightarrow> (QuoteJSONString k @ CHR '':'' # s) # stringify_members kvs)"

section \<open>port-utils.js: the host's ports\<close>

text \<open>
  The state of the host that port-utils.js acts on: the queue of every port, head first,
  the capacity of a port, and the calls made on \<open>ns\<close> and on port handles so far. A port
  number is an integer and a port holds strings. What the host makes of a queue when a
  full port is written to is the parameter \<open>overflow\<close>. The calls on the host are taken to
  return normally.
\<close>

datatype ns_call =
    Tprint string
  | GetPortHandle int
  | Full int
  | Empty int
  | Peek int
  | Read int
  | Write int string

record netscript =
  ports :: "int \<Rightarrow> string list"
  maxPortCapacity :: nat
  overflow :: "string list \<Rightarrow> string \<Rightarrow> string list"
  calls :: "ns_call list"

definition call :: "ns_call \<Rightarrow> netscript \<Rightarrow> netscript" where
  "call c w = w\<lparr>calls := calls w @ [c]\<rparr>"

text \<open>
  Modelled from the spec: the port primitives of the host (\<open>getPortHandle\<close>, and \<open>full\<close>,
  \<open>empty\<close>, \<open>peek\<close>, \<open>read\<close>, \<open>write\<close> of a handle) are not in the repository. A port is a
  fixed-capacity FIFO queue: it is full when it holds as many messages as its capacity,
  \<open>peek\<close> gives the head, \<open>read\<close> takes the head off, \<open>write\<close> puts a message at the end. On
  an empty port \<open>peek\<close> and \<open>read\<close> give the host's string for that. A handle is the number
  of its port.
\<close>

definition ns_getPortHandle :: "int \<Rightarrow> netscript \<Rightarrow> int \<times> netscript" where
  "ns_getPortHandle port w = (port, call (GetPortHandle port) w)"

definition handle_full :: "int \<Rightarrow> netscript \<Rightarrow> bool \<times> netscript" where
  "handle_full h w = (length (ports w h) \<ge> maxPortCapacity w, call (Full h) w)"




definition handle_write :: "int \<Rightarrow> string \<Rightarrow> netscript \<Rightarrow> netscript" where
  "handle_write h m w =
     call (Write h m)
       (w\<lparr>ports := (ports w)(h :=
            (if length (ports w h) \<ge> maxPortCapacity w then overflow w (ports w h) m
             else ports w h @ [m]))\<rparr>)"

subsection \<open>isInputPort, pushToInputPort, pushToOutputPort\<close>

definition minInputPort :: int where
  "minInputPort = 1"

definition maxInputPort :: int where
  "maxInputPort = 19"

definition outputPort :: int where
  "outputPort = 20"

definition isInputPort :: "int \<Rightarrow> bool" where
  "isInputPort port \<longleftrightarrow> minInputPort \<le> port \<and> port \<le> maxInputPort"

text \<open>
  The object \<open>{eventType, reqId, data: JSON.stringify(data)}\<close> that pushToInputPort
  builds. \<open>JSON.stringify(data)\<close> is a string, or \<open>undefined\<close>.
\<close>

definition payload_object :: "string \<Rightarrow> string \<Rightarrow> jsval \<Rightarrow> jsval" where
  "payload_object eventType reqId data =
     JObj [(''eventType'', JStr eventType),
           (''reqId'', JStr reqId),
           (''data'', case JSON_stringify data of None \<Rightarrow> JUndefined | Some s \<Rightarrow> JStr s)]"

text \<open>
  \<open>JSON.stringify\<close> of an object is always a string, so the branch \<open>None\<close> below is never
  taken (lemma \<open>JSON_stringify_payload_object\<close>).
\<close>

definition pushToInputPort ::
  "netscript \<Rightarrow> string \<Rightarrow> string \<Rightarrow> jsval \<Rightarrow> int \<Rightarrow> netscript" where
  "pushToInputPort w eventType reqId data port =
     (if \<not> isInputPort port then
        call (Tprint (''ERROR'' @ [CHR 0x09] @ '' Input ports must be between ''
                      @ Number_toString 10 minInputPort @ '' and ''
                      @ Number_toString 10 maxInputPort @ ''!'')) w
      else
        (let (handle, w1) = ns_getPortHandle port w;
             payload = payload_object eventType reqId data
         in case JSON_stringify payload of
              None \<Rightarrow> w1
            | Some message \<Rightarrow> handle_write handle message w1))"

definition pushToOutputPort :: "netscript \<Rightarrow> string \<Rightarrow> bool \<times> netscript" where
  "pushToOutputPort w payload =
     (let (handle, w1) = ns_getPortHandle outputPort w;
          (full, w2) = handle_full handle w1
      in if full then (False, w2)
         else (True, handle_write handle payload w2))"

section \<open>JSON.parse, property reads, ToString\<close>

text \<open>
  \<open>JSON.parse(text)\<close> after the JSON grammar: white space is skipped around every
  token; a string may hold any character but the quotation mark, the reverse solidus
  and the control characters below 0x20, and the escapes
  \<open>\" \\ \/ \b \f \n \r \t \uXXXX\<close>; a number is an optional minus sign and an integer
  part without leading zeros; then \<open>true\<close>, \<open>false\<close>, \<open>null\<close>, arrays and objects. A
  \<open>SyntaxError\<close> is the exception \<open>JSON.parse\<close> throws. Where a number goes on with a
  fraction or an exponent, and where a \<open>\uXXXX\<close> escape names a code unit from 256 on,
  the model has no value to give and the result is \<open>Unmodelled\<close>.
\<close>

definition is_ws :: "char \<Rightarrow> bool" where
  "is_ws c \<longleftrightarrow> c = CHR '' '' \<or> c = CHR 0x09 \<or> c = CHR 0x0A \<or> c = CHR 0x0D"

definition skip_ws :: "string \<Rightarrow> string" where
  "skip_ws s = dropWhile is_ws s"

definition digit_val :: "char \<Rightarrow> nat option" where
  "digit_val c =
     (let n = (of_char c :: nat)
      in if 48 \<le> n \<and> n \<le> 57 then Some (n - 48)
         else if 97 \<le> n \<and> n \<le> 102 then Some (n - 87)
         else if 65 \<le> n \<and> n \<le> 70 then Some (n - 55)
         else None)"

definition is_digit :: "char \<Rightarrow> bool" where
  "is_digit c \<longleftrightarrow> 48 \<le> (of_char c :: nat) \<and> (of_char c :: nat) \<le> 57"

definition digits_value :: "string \<Rightarrow> nat" where
  "digits_value ds = foldl (\<lambda>acc c. 10 * acc + (of_char c - 48)) 0 ds"

text \<open>The four hexadecimal digits of a \<open>\u\<close> escape, upper or lower case.\<close>

definition parse_hex4 :: "char \<Rightarrow> char \<Rightarrow> char \<Rightarrow> char \<Rightarrow> nat option" where
  "parse_hex4 a b c d =
     (case (digit_val a, digit_val b, digit_val c, digit_val d) of
        (Some x, Some y, Some z, Some w) \<Rightarrow> Some (((x * 16 + y) * 16 + z) * 16 + w)
      | _ \<Rightarrow> None)"

definition unescape :: "char \<Rightarrow> char option" where
  "unescape e =
     (if e = dquote then Some dquote
      else if e = backslash then Some backslash
      else if e = CHR ''/'' then Some (CHR ''/'')
      else if e = CHR ''b'' then Some (CHR 0x08)
      else if e = CHR ''f'' then Some (CHR 0x0C)
      else if e = CHR ''n'' then Some (CHR 0x0A)
      else if e = CHR ''r'' then Some (CHR 0x0D)
      else if e = CHR ''t'' then Some (CHR 0x09)
      else None)"

definition cons_result :: "char \<Rightarrow> js_error + string \<times> string \<Rightarrow> js_error + string \<times> string" where
  "cons_result c r = (case r of Inl e \<Rightarrow> Inl e | Inr (s, rest) \<Rightarrow> Inr (c # s, rest))"

text \<open>The characters of a string after its opening quotation mark, up to the closing one.\<close>

fun parse_string_chars :: "string \<Rightarrow> js_error + string \<times> string" where
  "parse_string_chars [] = Inl SyntaxError"
| "parse_string_chars (c # cs) =
     (if c = dquote then Inr ([], cs)
      else if c = backslash then
        (case cs of
           [] \<Rightarrow> Inl SyntaxError
         | e # es \<Rightarrow>
             if e = CHR ''u'' then
               (case es of
                  h1 # h2 # h3 # h4 # rest \<Rightarrow>
                    (case parse_hex4 h1 h2 h3 h4 of
                       None \<Rightarrow> Inl SyntaxError
                     | Some n \<Rightarrow>
                         if n < 256 then cons_result (char_of n) (parse_string_chars rest)
                         else Inl Unmodelled)
                | _ \<Rightarrow> Inl SyntaxError)
             else
               (case unescape e of
                  None \<Rightarrow> Inl SyntaxError
                | Some c' \<Rightarrow> cons_result c' (parse_string_chars es)))
      else if (of_char c :: nat) < 32 then Inl SyntaxError
      else cons_result c (parse_string_chars cs))"

text \<open>
  A number: the text begins at the minus sign or the first digit. After a leading \<open>0\<close> the
  integer part is over.
\<close>

definition integer_part :: "string \<Rightarrow> string \<times> string" where
  "integer_part s =
     (case s of
        c # cs \<Rightarrow> if c = CHR ''0'' then ([c], cs)
                  else (takeWhile is_digit s, dropWhile is_digit s)
      | [] \<Rightarrow> ([], []))"

definition parse_number :: "string \<Rightarrow> js_error + int \<times> string" where
  "parse_number s =
     (let (negative, s1) = (case s of c # cs \<Rightarrow> if c = CHR ''-'' then (True, cs) else (False, s)
                                     | [] \<Rightarrow> (False, s));
          (ds, rest) = integer_part s1
      in if ds = [] then Inl SyntaxError
         else if (case rest of c # cs \<Rightarrow> c = CHR ''.'' \<or> c = CHR ''e'' \<or> c = CHR ''E'' | [] \<Rightarrow> False)
           then Inl Unmodelled
         else Inr (if negative then - int (digits_value ds) else int (digits_value ds), rest))"

text \<open>
  The recursive descent over values, elements of an array and members of an object. The
  first argument bounds the number of nested calls and makes the recursion structural;
  \<open>JSON_parse\<close> starts it high enough for the whole text, so that \<open>OutOfFuel\<close> is never
  its result (lemma \<open>JSON_parse_fuel\<close>). \<open>parse_elements\<close> and
  \<open>parse_members\<close> start after the opening bracket, at the first element or member, with
  the elements or members read so far. A key that comes twice keeps its place and takes
  the later value.
\<close>

fun strip_prefix :: "string \<Rightarrow> string \<Rightarrow> string option" where
  "strip_prefix [] s = Some s"
| "strip_prefix (p # ps) [] = None"
| "strip_prefix (p # ps) (c # cs) = (if p = c then strip_prefix ps cs else None)"

fun update_member :: "string \<Rightarrow> jsval \<Rightarrow> (string \<times> jsval) list \<Rightarrow> (string \<times> jsval) list" where
  "update_member k v [] = [(k, v)]"
| "update_member k v ((k', v') # kvs) =
     (if k' = k then (k, v) # kvs else (k', v') # update_member k v kvs)"

fun parse_value :: "nat \<Rightarrow> string \<Rightarrow> js_error + jsval \<times> string"
  and parse_elements :: "nat \<Rightarrow> jsval list \<Rightarrow> string \<Rightarrow> js_error + jsval \<times> string"
  and parse_members :: "nat \<Rightarrow> (string \<times> jsval) list \<Rightarrow> string \<Rightarrow> js_error + jsval \<times> string"
  where
  "parse_value 0 s = Inl OutOfFuel"
| "parse_value (Suc n) s =
     (case skip_ws s of
        [] \<Rightarrow> Inl SyntaxError
      | c # cs \<Rightarrow>
          if c = CHR ''{'' then
            (case skip_ws cs of
               [] \<Rightarrow> Inl SyntaxError
             | c' # cs' \<Rightarrow> if c' = CHR ''}'' then Inr (JObj [], cs')
                           else parse_members n [] (c' # cs'))
          else if c = CHR ''['' then
            (case skip_ws cs of
               [] \<Rightarrow> Inl SyntaxError
             | c' # cs' \<Rightarrow> if c' = CHR '']'' then Inr (JArr [], cs')
                           else parse_elements n [] (c' # cs'))
          else if c = dquote then
            (case parse_string_chars cs of
               Inl e \<Rightarrow> Inl e
             | Inr (str, rest) \<Rightarrow> Inr (JStr str, rest))
          else if c = CHR ''-'' \<or> is_digit c then
            (case parse_number (c # cs) of
               Inl e \<Rightarrow> Inl e
             | Inr (i, rest) \<Rightarrow> Inr (JNum i, rest))
          else
            (case strip_prefix ''true'' (c # cs) of
               Some rest \<Rightarrow> Inr (JBool True, rest)
             | None \<Rightarrow>
                 (case strip_prefix ''false'' (c # cs) of
                    Some rest \<Rightarrow> Inr (JBool False, rest)
                  | None \<Rightarrow>
                      (case strip_prefix ''null'' (c # cs) of
                         Some rest \<Rightarrow> Inr (JNull, rest)
                       | None \<Rightarrow> Inl SyntaxError))))"
| "parse_elements 0 acc s = Inl OutOfFuel"
| "parse_elements (Suc n) acc s =
     (case parse_value n s of
        Inl e \<Rightarrow> Inl e
      | Inr (v, rest) \<Rightarrow>
          (case skip_ws rest of
             [] \<Rightarrow> Inl SyntaxError
           | c # cs \<Rightarrow>
               if c = CHR '','' then parse_elements n (acc @ [v]) cs
               else if c = CHR '']'' then Inr (JArr (acc @ [v]), cs)
               else Inl SyntaxError))"
| "parse_members 0 acc s = Inl OutOfFuel"
| "parse_members (Suc n) acc s =
     (case skip_ws s of
        [] \<Rightarrow> Inl SyntaxError
      | c # cs \<Rightarrow>
          if c = dquote then
            (case parse_string_chars cs of
               Inl e \<Rightarrow> Inl e
             | Inr (key, rest) \<Rightarrow>
                 (case skip_ws rest of
                    [] \<Rightarrow> Inl SyntaxError
                  | c' # cs' \<Rightarrow>
                      if c' = CHR '':'' then
                        (case parse_value n cs' of
                           Inl e \<Rightarrow> Inl e
                         | Inr (v, rest') \<Rightarrow>
                             (case skip_ws rest' of
                                [] \<Rightarrow> Inl SyntaxError
                              | c'' # cs'' \<Rightarrow>
                                  if c'' = CHR '','' then
                                    parse_members n (update_member key v acc) cs''
                                  else if c'' = CHR ''}'' then
                                    Inr (JObj (update_member key v acc), cs'')
                                  else Inl SyntaxError))
                      else Inl SyntaxError))
          else Inl SyntaxError)"

definition JSON_parse :: "string \<Rightarrow> js_error + jsval" where
  "JSON_parse s =
     (case parse_value (2 * length s + 1) s of
        Inl e \<Rightarrow> Inl e
      | Inr (v, rest) \<Rightarrow> if skip_ws rest = [] then Inr v else Inl SyntaxError)"

text \<open>
  \<open>ToString\<close>, which \<open>JSON.parse\<close> applies to an argument that is not a string: an array
  joins its elements with commas (\<open>undefined\<close> and \<open>null\<close> as the empty string), an object
  is \<open>[object Object]\<close>.
\<close>

fun js_ToString :: "jsval \<Rightarrow> string"
  and ToString_elements :: "jsval list \<Rightarrow> string list" where
  "js_ToString JUndefined = ''undefined''"
| "js_ToString JNull = ''null''"
| "js_ToString (JBool b) = (if b then ''true'' else ''false'')"
| "js_ToString (JNum n) = Number_toString 10 n"
| "js_ToString (JStr s) = s"
| "js_ToString (JArr xs) = join_comma (ToString_elements xs)"
| "js_ToString (JObj kvs) = ''[object Object]''"
| "ToString_elements [] = []"
| "ToString_elements (x # xs) =
     (if x = JUndefined \<or> x = JNull then [] else js_ToString x) # ToString_elements xs"


subsection \<open>Values that JSON can represent\<close>






text \<open>
  A result of the parser that did not come from the bound on nested calls, and, when it
  is a value, left fewer characters than it was given.
\<close>

definition fuel_ok :: "(js_error + jsval \<times> string) \<Rightarrow> string \<Rightarrow> bool" where
  "fuel_ok result s \<longleftrightarrow>
     (case result of Inl e \<Rightarrow> e \<noteq> OutOfFuel | Inr (v, rest) \<Rightarrow> length rest < length s)"

subsection \<open>checkForEvent\<close>




subsection \<open>Example states of the host\<close>

text \<open>A host whose output port holds the given messages and whose other ports are empty.\<close>

definition netscript_with_output :: "string list \<Rightarrow> netscript" where
  "netscript_with_output messages = \<lparr>
     ports = (\<lambda>port. if port = 20 then messages else []),
     maxPortCapacity = 50,
     overflow = (\<lambda>queue message. tl queue @ [message]),
     calls = [] \<rparr>"

subsection \<open>createUUID\<close>

text \<open>
  \<open>createUUID\<close> reads the clock once (\<open>new Date().getTime()\<close>, an integer number of
  milliseconds, the argument \<open>now\<close>) and calls \<open>Math.random()\<close> once for every \<open>x\<close> and
  \<open>y\<close> of the template, left to right; \<open>random k\<close> is the value of the k-th call. The
  arithmetic is exact, on rationals: \<open>%\<close> is the remainder with the sign of the dividend
  and \<open>| 0\<close> cuts the fraction off towards zero (all values here are far inside the
  32-bit range, where \<open>| 0\<close> and the other bit operations act as on integers).
\<close>

definition js_trunc :: "rat \<Rightarrow> int" where
  "js_trunc q = (if q < 0 then \<lceil>q\<rceil> else \<lfloor>q\<rfloor>)"

definition js_rem :: "rat \<Rightarrow> rat \<Rightarrow> rat" where
  "js_rem a b = a - b * of_int (js_trunc (a / b))"

definition uuid_digit :: "int \<Rightarrow> rat \<Rightarrow> char \<Rightarrow> string \<times> int" where
  "uuid_digit dt rnd c =
     (let r = js_trunc (js_rem (of_int dt + rnd * 16) 16);
          dt' = \<lfloor>(of_int dt :: rat) / 16\<rfloor>
      in (Number_toString 16 (if c = CHR ''x'' then r else (r AND 3) OR 8), dt'))"

fun replace_xy :: "(nat \<Rightarrow> rat) \<Rightarrow> nat \<Rightarrow> int \<Rightarrow> string \<Rightarrow> string" where
  "replace_xy random k dt [] = []"
| "replace_xy random k dt (c # cs) =
     (if c = CHR ''x'' \<or> c = CHR ''y'' then
        (let (s, dt') = uuid_digit dt (random k) c
         in s @ replace_xy random (Suc k) dt' cs)
      else c # replace_xy random k dt cs)"

definition createUUID :: "int \<Rightarrow> (nat \<Rightarrow> rat) \<Rightarrow> string" where
  "createUUID now random = replace_xy random 0 now ''xxxxxxxx-xxxx-4xxx-yxxx-xxxxxxxxxxxx''"

definition lower_hex :: "char \<Rightarrow> bool" where
  "lower_hex c \<longleftrightarrow> c \<in> set ''0123456789abcdef''"

definition uuid_rel :: "char \<Rightarrow> char \<Rightarrow> bool" where
  "uuid_rel c c' =
     (if c = CHR ''x'' then lower_hex c'
      else if c = CHR ''y'' then c' \<in> set ''89ab''
      else c' = c)"

section \<open>Properties of utils.js\<close>

lemma penetrate_loop_eq:
  "penetrate_loop ns server cracks =
     map (\<lambda>(file, runScript). RunScript runScript server)
       (filter (\<lambda>(file, runScript). fileExists ns file homeServer) cracks)"
  by (induction cracks) auto

lemma card_filter_distinct:
  "distinct xs \<Longrightarrow> card {x \<in> set xs. P x} = length (filter P xs)"
proof -
  assume d: "distinct xs"
  have s: "{x \<in> set xs. P x} = set (filter P xs)" by auto
  from d have "distinct (filter P xs)" by simp
  then have "card (set (filter P xs)) = length (filter P xs)" by (rule distinct_card)
  with s show ?thesis by simp
qed

text \<open>
  C5: for every server and every cracks map, canPenetrate returns true if and only if
  the number of keys of cracks that exist as files on the home server is greater than or
  equal to the number of ports the server requires. The keys of an object are distinct,
  so their number is the cardinality of the set of keys that pass the test.
\<close>

theorem canPenetrate_iff:
  assumes "distinct (Object_keys cracks)"
  shows "canPenetrate ns server cracks \<longleftrightarrow>
         int (card {file \<in> set (Object_keys cracks). fileExists ns file ''home''})
           \<ge> getServerNumPortsRequired ns server"
  using assms
  by (simp add: canPenetrate_def getNumCracks_def card_filter_distinct homeServer_def)

theorem canPenetrate_iff_witness:
  "distinct (Object_keys cracks_example)
   \<and> canPenetrate ns_example ''foodnstuff'' cracks_example
   \<and> int (card {file \<in> set (Object_keys cracks_example). fileExists ns_example file ''home''})
        \<ge> getServerNumPortsRequired ns_example ''foodnstuff''"
proof -
  have d: "distinct (Object_keys cracks_example)"
    by (simp add: Object_keys_def cracks_example_def)
  have c: "canPenetrate ns_example ''foodnstuff'' cracks_example"
    by (simp add: canPenetrate_def getNumCracks_def Object_keys_def cracks_example_def
        ns_example_def homeServer_def)
  from canPenetrate_iff [OF d, of ns_example "''foodnstuff''"] c d show ?thesis
    by blast
qed

text \<open>
  C6: for every server and cracks map, getRootAccess always calls ns.nuke(server) (once,
  as its last call), and the crack functions it calls are cracks[file](server) for exactly
  the keys of cracks that exist as files on home, in key order, when the server requires
  more than 0 ports, and none otherwise.
\<close>

theorem getRootAccess_calls:
  "filter is_Nuke (getRootAccess ns server cracks) = [Nuke server]
   \<and> last (getRootAccess ns server cracks) = Nuke server
   \<and> filter is_RunScript (getRootAccess ns server cracks) =
       (if getServerNumPortsRequired ns server > 0
        then map (\<lambda>(file, runScript). RunScript runScript server)
               (filter (\<lambda>(file, runScript). fileExists ns file ''home'') cracks)
        else [])"
proof -
  let ?run = "map (\<lambda>(file, runScript). RunScript runScript server)
       (filter (\<lambda>(file, runScript). fileExists ns file homeServer) cracks)"
  have n: "filter is_Nuke ?run = []"
    by (induction cracks) auto
  have r: "filter is_RunScript ?run = ?run"
    by (induction cracks) auto
  show ?thesis
    using n r
    by (simp add: getRootAccess_def penetrate_def penetrate_loop_eq Let_def)
       (simp add: homeServer_def)
qed

text \<open>
  C7: for every server, script RAM requirement and useMax flag, hasRam returns true if
  and only if the considered RAM amount (the maximum RAM when useMax is true, the
  maximum minus the used RAM otherwise, also when useMax is left out) is strictly
  greater than scriptRam; when the considered amount equals scriptRam it returns false.
\<close>

theorem hasRam_iff:
  "(hasRam ns server scriptRam (Some True) \<longleftrightarrow> getServerMaxRam ns server > scriptRam)
   \<and> (hasRam ns server scriptRam (Some False)
        \<longleftrightarrow> getServerMaxRam ns server - getServerUsedRam ns server > scriptRam)
   \<and> (hasRam ns server scriptRam None
        \<longleftrightarrow> getServerMaxRam ns server - getServerUsedRam ns server > scriptRam)
   \<and> \<not> hasRam ns server (getServerMaxRam ns server) (Some True)
   \<and> \<not> hasRam ns server (getServerMaxRam ns server - getServerUsedRam ns server) (Some False)
   \<and> \<not> hasRam ns server (getServerMaxRam ns server - getServerUsedRam ns server) None"
  by (simp add: hasRam_def Let_def)

subsection \<open>getNetworkNodes\<close>








text \<open>
  C1: getNetworkNodes should return every hostname reachable from the start node. Here
  it does not: the server named \<open>constructor\<close> is a neighbour of the start node, but
  \<open>visited[''constructor'']\<close> is the function every object inherits under that name, so the
  server is taken for visited, never pushed, and missing from the result.
\<close>

theorem getNetworkNodes_misses_constructor:
  "''constructor'' \<in> set (scan ns_constructor (getHostname ns_constructor))
   \<and> getNetworkNodes ns_constructor = Some [''home'']"
  by (simp add: getNetworkNodes_def ns_constructor_def ns_network_def dfs_loop.simps
      visited_truthy_def visited_assign_def Object_prototype_keys_def)

lemma visited_truthy_plain:
  "plain_hostname h \<Longrightarrow> visited_truthy visited h \<longleftrightarrow> h \<in> set visited"
  by (simp add: visited_truthy_def plain_hostname_def)

lemma visited_assign_plain:
  "plain_hostname h \<Longrightarrow> h \<notin> set visited \<Longrightarrow> visited_assign visited h = visited @ [h]"
  by (auto simp: visited_assign_def plain_hostname_def Object_prototype_keys_def)

lemma set_push_children_plain:
  "\<forall>c\<in>set children. plain_hostname c \<Longrightarrow>
   set (push_children visited children stack) =
     {c \<in> set children. c \<notin> set visited} \<union> set stack"
proof (induction children arbitrary: stack)
  case Nil
  then show ?case by simp
next
  case (Cons child rest)
  then have p: "plain_hostname child" and r: "\<forall>c\<in>set rest. plain_hostname c" by simp_all
  from Cons.IH [OF r, of "if \<not> visited_truthy visited child then child # stack else stack"]
  show ?case by (auto simp: visited_truthy_plain [OF p])
qed

lemma reachable_origin: "origin \<in> reachable scanf origin"
  by (simp add: reachable_def)

lemma reachable_step:
  "u \<in> reachable scanf origin \<Longrightarrow> w \<in> set (scanf u) \<Longrightarrow> w \<in> reachable scanf origin"
  by (auto simp: reachable_def intro: rtrancl_into_rtrancl)

lemma reachable_closed:
  assumes "origin \<in> S" and "\<forall>u\<in>S. set (scanf u) \<subseteq> S"
  shows "reachable scanf origin \<subseteq> S"
proof
  fix v assume "v \<in> reachable scanf origin"
  then have "(origin, v) \<in> {(u, w). w \<in> set (scanf u)}\<^sup>*" by (simp add: reachable_def)
  then show "v \<in> S"
  proof (induction rule: rtrancl_induct)
    case base
    from assms(1) show ?case .
  next
    case (step y z)
    with assms(2) show ?case by auto
  qed
qed

lemma dfs_loop_correct:
  assumes fin: "finite V"
    and closed: "\<forall>v\<in>V. set (scanf v) \<subseteq> V"
    and plain: "\<forall>v\<in>V. plain_hostname v"
    and origin: "origin \<in> V"
  shows "distinct visited \<Longrightarrow> set visited \<subseteq> reachable scanf origin \<Longrightarrow>
         set stack \<subseteq> reachable scanf origin \<Longrightarrow>
         origin \<in> set visited \<union> set stack \<Longrightarrow>
         \<forall>u\<in>set visited. set (scanf u) \<subseteq> set visited \<union> set stack \<Longrightarrow>
         \<exists>y. dfs_loop scanf visited stack = Some y \<and> distinct y
              \<and> set y = reachable scanf origin"
proof (induction "(visited, stack)" arbitrary: visited stack
    rule: wf_induct_rule [OF wf_measures [of "[\<lambda>(vs, st). card (V - set vs), \<lambda>(vs, st). length st]"]])
  case 1
  note IH = "1.hyps"
  note dist = "1.prems"(1) and visR = "1.prems"(2) and stR = "1.prems"(3)
    and org = "1.prems"(4) and succ = "1.prems"(5)
  have RV: "reachable scanf origin \<subseteq> V"
    using origin closed by (rule reachable_closed)
  show ?case
  proof (cases stack)
    case Nil
    with org succ have "reachable scanf origin \<subseteq> set visited"
      by (intro reachable_closed) auto
    with visR dist Nil show ?thesis by (simp add: dfs_loop.simps)
  next
    case (Cons node popped)
    with stR have nodeR: "node \<in> reachable scanf origin"
      and popR: "set popped \<subseteq> reachable scanf origin" by auto
    from nodeR RV have nodeV: "node \<in> V" by auto
    with plain have pn: "plain_hostname node" by simp
    show ?thesis
    proof (cases "node \<in> set visited")
      case True
      have "\<exists>y. dfs_loop scanf visited popped = Some y \<and> distinct y
              \<and> set y = reachable scanf origin"
      proof (rule IH)
        show "((visited, popped), (visited, stack)) \<in>
            measures [\<lambda>(vs, st). card (V - set vs), \<lambda>(vs, st). length st]"
          by (simp add: Cons)
        show "distinct visited" by (rule dist)
        show "set visited \<subseteq> reachable scanf origin" by (rule visR)
        show "set popped \<subseteq> reachable scanf origin" by (rule popR)
        show "origin \<in> set visited \<union> set popped" using org True Cons by auto
        show "\<forall>u\<in>set visited. set (scanf u) \<subseteq> set visited \<union> set popped"
          using succ True Cons by auto
      qed
      with True Cons pn show ?thesis
        by (simp add: dfs_loop.simps visited_truthy_plain)
    next
      case False
      let ?visited = "visited @ [node]"
      let ?stack = "push_children ?visited (scanf node) popped"
      from pn False have va: "visited_assign visited node = ?visited"
        by (rule visited_assign_plain)
      from closed nodeV have chV: "set (scanf node) \<subseteq> V" by auto
      with plain have chP: "\<forall>c\<in>set (scanf node). plain_hostname c" by auto
      from set_push_children_plain [OF chP, of ?visited popped]
      have st: "set ?stack = {c \<in> set (scanf node). c \<notin> set ?visited} \<union> set popped" .
      have chR: "set (scanf node) \<subseteq> reachable scanf origin"
        using nodeR by (auto intro: reachable_step)
      have "V - set ?visited \<subset> V - set visited"
        using nodeV False by auto
      with fin have less: "card (V - set ?visited) < card (V - set visited)"
        by (intro psubset_card_mono) auto
      have "\<exists>y. dfs_loop scanf ?visited ?stack = Some y \<and> distinct y
              \<and> set y = reachable scanf origin"
      proof (rule IH)
        show "((?visited, ?stack), (visited, stack)) \<in>
            measures [\<lambda>(vs, st). card (V - set vs), \<lambda>(vs, st). length st]"
          using less by simp
        show "distinct ?visited" using dist False by simp
        show "set ?visited \<subseteq> reachable scanf origin" using visR nodeR by simp
        show "set ?stack \<subseteq> reachable scanf origin" using st chR popR by auto
        show "origin \<in> set ?visited \<union> set ?stack" using org Cons st by auto
        show "\<forall>u\<in>set ?visited. set (scanf u) \<subseteq> set ?visited \<union> set ?stack"
          using succ Cons st by auto
      qed
      with False Cons pn va show ?thesis
        by (simp add: dfs_loop.simps visited_truthy_plain)
    qed
  qed
qed

text \<open>
  On a finite network of plain hostnames the loop ends and returns every host reachable
  from the start node, each once, and no other.
\<close>

lemma getNetworkNodes_plain_hostnames:
  assumes "finite V" and "getHostname ns \<in> V" and "\<forall>v\<in>V. set (scan ns v) \<subseteq> V"
    and "\<forall>v\<in>V. plain_hostname v"
  shows "\<exists>nodes. getNetworkNodes ns = Some nodes \<and> distinct nodes
           \<and> set nodes = reachable (scan ns) (getHostname ns)"
  unfolding getNetworkNodes_def
  using assms(1,3,4,2)
  by (rule dfs_loop_correct) (simp_all add: reachable_origin)

section \<open>Properties of port-utils.js\<close>

lemma JSON_stringify_payload_object:
  "JSON_stringify (payload_object eventType reqId data) \<noteq> None"
  by (simp add: payload_object_def)

lemma ports_call [simp]: "ports (call c w) = ports w"
  by (simp add: call_def)

lemma maxPortCapacity_call [simp]: "maxPortCapacity (call c w) = maxPortCapacity w"
  by (simp add: call_def)

text \<open>
  C4: for every payload string, pushToOutputPort returns false and leaves the output port
  (and every other port) unchanged when the output port is full, and otherwise appends
  exactly the given payload string at the end of the output port, leaves the other ports
  unchanged, and returns true.
\<close>

theorem pushToOutputPort_full_or_append:
  "fst (pushToOutputPort w payload) = (length (ports w 20) < maxPortCapacity w)
   \<and> ports (snd (pushToOutputPort w payload)) =
       (if length (ports w 20) \<ge> maxPortCapacity w then ports w
        else (ports w)(20 := ports w 20 @ [payload]))"
  by (simp add: pushToOutputPort_def ns_getPortHandle_def handle_full_def handle_write_def
      outputPort_def Let_def)

text \<open>
  C9: for every port number outside the input range 1 to 19 (the output port 20
  included), pushToInputPort writes to no port: its only call on the host is the tprint of
  the error message, so no port handle is taken, nothing is written, and the contents of
  every port are unchanged.
\<close>

theorem pushToInputPort_outside_range:
  "\<not> (1 \<le> port \<and> port \<le> 19) \<Longrightarrow>
   pushToInputPort w eventType reqId data port =
     w\<lparr>calls := calls w @
         [Tprint (''ERROR'' @ [CHR 0x09] @ '' Input ports must be between 1 and 19!'')]\<rparr>"
  by (simp add: pushToInputPort_def isInputPort_def minInputPort_def maxInputPort_def
      call_def Number_toString_def digit_char_def nat_digits.simps)

theorem pushToInputPort_outside_range_witness:
  "\<not> (1 \<le> (20::int) \<and> (20::int) \<le> 19)
   \<and> pushToInputPort (netscript_with_output []) ''ping'' ''r1'' JNull 20 =
       (netscript_with_output [])\<lparr>calls :=
          [Tprint (''ERROR'' @ [CHR 0x09] @ '' Input ports must be between 1 and 19!'')]\<rparr>
   \<and> ports (pushToInputPort (netscript_with_output []) ''ping'' ''r1'' JNull 20) =
       ports (netscript_with_output [])"
proof -
  have h: "\<not> (1 \<le> (20::int) \<and> (20::int) \<le> 19)" by simp
  have c: "calls (netscript_with_output []) = []"
    by (simp add: netscript_with_output_def)
  from pushToInputPort_outside_range [OF h, of "netscript_with_output []" "''ping''" "''r1''" JNull]
    h c show ?thesis by simp
qed

subsection \<open>checkForEvent\<close>












subsection \<open>JSON.stringify followed by JSON.parse\<close>
















lemma skip_ws_delims [simp]:
  "skip_ws (CHR '','' # cs) = CHR '','' # cs"
  "skip_ws (CHR '']'' # cs) = CHR '']'' # cs"
  "skip_ws (CHR ''}'' # cs) = CHR ''}'' # cs"
  "skip_ws (CHR '':'' # cs) = CHR '':'' # cs"
  "skip_ws [] = []"
  by (simp_all add: skip_ws_def is_ws_def)

lemma strip_prefix_append: "strip_prefix p (p @ rest) = Some rest"
  by (induction p) simp_all













subsection \<open>The parser never runs out of fuel\<close>

lemma length_skip_ws: "length (skip_ws s) \<le> length s"
  by (simp add: skip_ws_def length_dropWhile_le)

lemma skip_ws_Cons_length: "skip_ws s = c # cs \<Longrightarrow> length cs < length s"
  using length_skip_ws [of s] by simp

lemma cons_result_Inr:
  "cons_result c r = Inr (s, rest) \<Longrightarrow> \<exists>s'. r = Inr (s', rest)"
  by (auto simp: cons_result_def split: sum.splits)

lemma parse_string_chars_step:
  assumes "parse_string_chars (c # cs) = Inr (s, rest)" and "c \<noteq> dquote"
  shows "\<exists>t s'. length t \<le> length cs \<and> parse_string_chars t = Inr (s', rest)"
proof (cases "c = backslash")
  case False
  with assms have "cons_result c (parse_string_chars cs) = Inr (s, rest)"
    by (simp split: if_splits)
  from cons_result_Inr [OF this] show ?thesis by auto
next
  case True
  show ?thesis
  proof (cases cs)
    case Nil
    with assms True show ?thesis by simp
  next
    case (Cons e es)
    show ?thesis
    proof (cases "e = CHR ''u''")
      case False
      with assms True Cons have
        "\<exists>c'. cons_result c' (parse_string_chars es) = Inr (s, rest)"
        by (auto split: option.splits)
      then obtain c' where "cons_result c' (parse_string_chars es) = Inr (s, rest)"
        by blast
      from cons_result_Inr [OF this] obtain s' where "parse_string_chars es = Inr (s', rest)"
        by blast
      with Cons show ?thesis by (intro exI [of _ es] exI [of _ s']) simp
    next
      case u: True
      with assms True Cons have "\<exists>h1 h2 h3 h4 t c'. es = h1 # h2 # h3 # h4 # t
          \<and> cons_result c' (parse_string_chars t) = Inr (s, rest)"
        by (auto split: list.splits option.splits if_splits)
      then obtain h1 h2 h3 h4 t c' where es: "es = h1 # h2 # h3 # h4 # t"
        and cr: "cons_result c' (parse_string_chars t) = Inr (s, rest)"
        by blast
      from cons_result_Inr [OF cr] obtain s' where "parse_string_chars t = Inr (s', rest)"
        by blast
      with Cons es show ?thesis by (intro exI [of _ t] exI [of _ s']) simp
    qed
  qed
qed

lemma parse_string_chars_length:
  "parse_string_chars cs = Inr (s, rest) \<Longrightarrow> length rest < length cs"
proof (induction cs arbitrary: s rule: length_induct)
  case (1 cs)
  show ?case
  proof (cases cs)
    case Nil
    with "1.prems" show ?thesis by simp
  next
    case (Cons c t)
    show ?thesis
    proof (cases "c = dquote")
      case True
      with "1.prems" Cons show ?thesis by simp
    next
      case False
      from parse_string_chars_step [OF "1.prems" [unfolded Cons] False]
      obtain u s' where u: "length u \<le> length t" "parse_string_chars u = Inr (s', rest)"
        by blast
      from u(1) Cons have "length u < length cs" by simp
      with "1.IH" u(2) have "length rest < length u" by blast
      with u(1) Cons show ?thesis by simp
    qed
  qed
qed

lemma strip_prefix_length:
  "strip_prefix p s = Some rest \<Longrightarrow> length rest + length p = length s"
  by (induction p s rule: strip_prefix.induct) (auto split: if_splits)

lemma integer_part_length:
  "integer_part s = (ds, rest) \<Longrightarrow> ds \<noteq> [] \<Longrightarrow> length rest < length s"
proof -
  assume a: "integer_part s = (ds, rest)" and ne: "ds \<noteq> []"
  show ?thesis
  proof (cases s)
    case Nil
    with a ne show ?thesis by (simp add: integer_part_def)
  next
    case (Cons c cs)
    show ?thesis
    proof (cases "c = CHR ''0''")
      case True
      with a Cons show ?thesis by (auto simp: integer_part_def)
    next
      case False
      with a Cons have ds: "ds = takeWhile is_digit s" and r: "rest = dropWhile is_digit s"
        by (auto simp: integer_part_def)
      have "length (takeWhile is_digit s) + length (dropWhile is_digit s) = length s"
        by (metis length_append takeWhile_dropWhile_id)
      moreover from ds ne obtain a l where "takeWhile is_digit s = a # l"
        by (cases "takeWhile is_digit s") auto
      ultimately have "length s = Suc (length l) + length (dropWhile is_digit s)"
        by simp
      with r show ?thesis by simp
    qed
  qed
qed

lemma parse_number_length:
  "parse_number s = Inr (i, rest) \<Longrightarrow> length rest < length s"
proof -
  assume a: "parse_number s = Inr (i, rest)"
  obtain neg s1 where sg: "(case s of c # cs \<Rightarrow> if c = CHR ''-'' then (True, cs) else (False, s)
                                     | [] \<Rightarrow> (False, s)) = (neg, s1)"
    by (cases "(case s of c # cs \<Rightarrow> if c = CHR ''-'' then (True, cs) else (False, s)
                                     | [] \<Rightarrow> (False, s))") auto
  then have l1: "length s1 \<le> length s" by (auto split: list.splits if_splits)
  obtain ds r where ip: "integer_part s1 = (ds, r)" by (cases "integer_part s1") auto
  from a sg ip have "ds \<noteq> []" and "r = rest"
    by (auto simp: parse_number_def split: if_splits)
  with integer_part_length [OF ip] l1 show ?thesis by simp
qed

lemma fuel_ok_Inl [simp]: "fuel_ok (Inl e) s \<longleftrightarrow> e \<noteq> OutOfFuel"
  by (simp add: fuel_ok_def)

lemma fuel_ok_Inr [simp]: "fuel_ok (Inr (v, rest)) s \<longleftrightarrow> length rest < length s"
  by (simp add: fuel_ok_def)

lemma fuel_ok_mono: "fuel_ok r s \<Longrightarrow> length s \<le> length t \<Longrightarrow> fuel_ok r t"
  by (auto simp: fuel_ok_def split: sum.splits)

lemma parse_string_chars_no_fuel: "parse_string_chars cs \<noteq> Inl OutOfFuel"
proof (induction cs rule: length_induct)
  case (1 cs)
  show ?case
  proof
    assume a: "parse_string_chars cs = Inl OutOfFuel"
    have cr: "cons_result c' (parse_string_chars t) \<noteq> Inl OutOfFuel"
      if "length t < length cs" for c' t
      using "1.IH" that by (auto simp: cons_result_def split: sum.splits)
    show False
    proof (cases cs)
      case Nil
      with a show ?thesis by simp
    next
      case (Cons c t)
      have t: "cons_result c' (parse_string_chars t) \<noteq> Inl OutOfFuel" for c'
        by (rule cr) (simp add: Cons)
      show ?thesis
      proof (cases t)
        case Nil
        with a Cons show ?thesis
          by (auto simp: cons_result_def split: if_splits)
      next
        case c2: (Cons e es)
        have es: "cons_result c' (parse_string_chars es) \<noteq> Inl OutOfFuel" for c'
          by (rule cr) (simp add: Cons c2)
        have u: "cons_result c' (parse_string_chars r) \<noteq> Inl OutOfFuel"
          if "es = h1 # h2 # h3 # h4 # r" for c' h1 h2 h3 h4 r
          by (rule cr) (simp add: Cons c2 that)
        from a Cons c2 t es u show ?thesis
          by (auto split: if_splits list.splits option.splits)
      qed
    qed
  qed
qed

lemma fuel_ok_string:
  "fuel_ok (case parse_string_chars cs of Inl e \<Rightarrow> Inl e
            | Inr (str, rest) \<Rightarrow> Inr (JStr str, rest)) (c # cs)"
  using parse_string_chars_no_fuel [of cs]
  by (auto split: sum.splits dest: parse_string_chars_length)

lemma parse_number_no_fuel: "parse_number s \<noteq> Inl OutOfFuel"
  by (auto simp: parse_number_def Let_def split: prod.splits if_splits)

lemma fuel_ok_number:
  "fuel_ok (case parse_number s of Inl e \<Rightarrow> Inl e | Inr (i, rest) \<Rightarrow> Inr (JNum i, rest)) s"
  using parse_number_no_fuel [of s]
  by (auto split: sum.splits dest: parse_number_length)

lemma fuel_ok_literal:
  "fuel_ok (case strip_prefix ''true'' s of
              Some rest \<Rightarrow> Inr (JBool True, rest)
            | None \<Rightarrow>
                (case strip_prefix ''false'' s of
                   Some rest \<Rightarrow> Inr (JBool False, rest)
                 | None \<Rightarrow>
                     (case strip_prefix ''null'' s of
                        Some rest \<Rightarrow> Inr (JNull, rest)
                      | None \<Rightarrow> Inl SyntaxError))) s"
  by (auto split: option.splits dest!: strip_prefix_length)

lemma fuel_enough:
  "(\<forall>s. 2 * length s < n \<longrightarrow> fuel_ok (parse_value n s) s)
   \<and> (\<forall>acc s. 2 * length s + 2 \<le> n \<longrightarrow> fuel_ok (parse_elements n acc s) s)
   \<and> (\<forall>acc s. 2 * length s + 2 \<le> n \<longrightarrow> fuel_ok (parse_members n acc s) s)"
proof (induction n)
  case 0
  show ?case by simp
next
  case (Suc n)
  then have IHv: "\<And>s. 2 * length s < n \<Longrightarrow> fuel_ok (parse_value n s) s"
    and IHe: "\<And>acc s. 2 * length s + 2 \<le> n \<Longrightarrow> fuel_ok (parse_elements n acc s) s"
    and IHm: "\<And>acc s. 2 * length s + 2 \<le> n \<Longrightarrow> fuel_ok (parse_members n acc s) s"
    by blast+
  have v: "fuel_ok (parse_value (Suc n) s) s" if fuel: "2 * length s < Suc n" for s
  proof (cases "skip_ws s")
    case Nil
    then show ?thesis by simp
  next
    case (Cons c cs)
    from skip_ws_Cons_length [OF Cons] have lcs: "length cs < length s" .
    consider (obj) "c = CHR ''{''" | (arr) "c \<noteq> CHR ''{''" "c = CHR ''[''"
      | (str) "c \<noteq> CHR ''{''" "c \<noteq> CHR ''[''" "c = dquote"
      | (num) "c \<noteq> CHR ''{''" "c \<noteq> CHR ''[''" "c \<noteq> dquote" "c = CHR ''-'' \<or> is_digit c"
      | (lit) "c \<noteq> CHR ''{''" "c \<noteq> CHR ''[''" "c \<noteq> dquote" "\<not> (c = CHR ''-'' \<or> is_digit c)"
      by blast
    then show ?thesis
    proof cases
      case obj
      show ?thesis
      proof (cases "skip_ws cs")
        case Nil
        with Cons obj show ?thesis by simp
      next
        case c2: (Cons c' cs')
        from skip_ws_Cons_length [OF c2] have l2: "length cs' < length cs" .
        show ?thesis
        proof (cases "c' = CHR ''}''")
          case True
          with Cons obj c2 l2 lcs show ?thesis by simp
        next
          case False
          from l2 lcs fuel have "2 * length (c' # cs') + 2 \<le> n" by simp
          from IHm [OF this, of "[]"] have "fuel_ok (parse_members n [] (c' # cs')) s"
            by (rule fuel_ok_mono) (use l2 lcs in simp)
          with Cons obj c2 False show ?thesis by simp
        qed
      qed
    next
      case arr
      show ?thesis
      proof (cases "skip_ws cs")
        case Nil
        with Cons arr show ?thesis by simp
      next
        case c2: (Cons c' cs')
        from skip_ws_Cons_length [OF c2] have l2: "length cs' < length cs" .
        show ?thesis
        proof (cases "c' = CHR '']''")
          case True
          with Cons arr c2 l2 lcs show ?thesis by simp
        next
          case False
          from l2 lcs fuel have "2 * length (c' # cs') + 2 \<le> n" by simp
          from IHe [OF this, of "[]"] have "fuel_ok (parse_elements n [] (c' # cs')) s"
            by (rule fuel_ok_mono) (use l2 lcs in simp)
          with Cons arr c2 False show ?thesis by simp
        qed
      qed
    next
      case str
      from fuel_ok_string [of cs c]
      have "fuel_ok (case parse_string_chars cs of Inl e \<Rightarrow> Inl e
            | Inr (str, rest) \<Rightarrow> Inr (JStr str, rest)) s"
        by (rule fuel_ok_mono) (use lcs in simp)
      with Cons str show ?thesis by simp
    next
      case num
      from fuel_ok_number [of "c # cs"]
      have "fuel_ok (case parse_number (c # cs) of Inl e \<Rightarrow> Inl e
            | Inr (i, rest) \<Rightarrow> Inr (JNum i, rest)) s"
        by (rule fuel_ok_mono) (use lcs in simp)
      with Cons num show ?thesis by simp
    next
      case lit
      from fuel_ok_literal [of "c # cs"]
      have "fuel_ok (case strip_prefix ''true'' (c # cs) of
              Some rest \<Rightarrow> Inr (JBool True, rest)
            | None \<Rightarrow>
                (case strip_prefix ''false'' (c # cs) of
                   Some rest \<Rightarrow> Inr (JBool False, rest)
                 | None \<Rightarrow>
                     (case strip_prefix ''null'' (c # cs) of
                        Some rest \<Rightarrow> Inr (JNull, rest)
                      | None \<Rightarrow> Inl SyntaxError))) s"
        by (rule fuel_ok_mono) (use lcs in simp)
      with Cons lit show ?thesis by simp
    qed
  qed
  have e: "fuel_ok (parse_elements (Suc n) acc s) s" if fuel: "2 * length s + 2 \<le> Suc n"
    for acc s
  proof -
    from fuel have "2 * length s < n" by simp
    from IHv [OF this] have pv: "fuel_ok (parse_value n s) s" .
    show ?thesis
    proof (cases "parse_value n s")
      case (Inl err)
      with pv show ?thesis by simp
    next
      case (Inr vr)
      obtain v rest where vr: "vr = (v, rest)" by (cases vr)
      with pv Inr have lr: "length rest < length s" by simp
      show ?thesis
      proof (cases "skip_ws rest")
        case Nil
        with Inr vr show ?thesis by simp
      next
        case (Cons c cs)
        from skip_ws_Cons_length [OF Cons] have lcs: "length cs < length rest" .
        from lcs lr fuel have "2 * length cs + 2 \<le> n" by simp
        from IHe [OF this, of "acc @ [v]"]
        have "fuel_ok (parse_elements n (acc @ [v]) cs) s"
          by (rule fuel_ok_mono) (use lcs lr in simp)
        with Inr vr Cons lcs lr show ?thesis by simp
      qed
    qed
  qed
  have m: "fuel_ok (parse_members (Suc n) acc s) s" if fuel: "2 * length s + 2 \<le> Suc n"
    for acc s
  proof (cases "skip_ws s")
    case Nil
    then show ?thesis by simp
  next
    case (Cons c cs)
    from skip_ws_Cons_length [OF Cons] have lcs: "length cs < length s" .
    show ?thesis
    proof (cases "c = dquote")
      case False
      with Cons show ?thesis by simp
    next
      case True
      show ?thesis
      proof (cases "parse_string_chars cs")
        case (Inl err)
        with parse_string_chars_no_fuel [of cs] Cons True show ?thesis by simp
      next
        case (Inr kr)
        obtain key rest where kr: "kr = (key, rest)" by (cases kr)
        from parse_string_chars_length [OF Inr [unfolded kr]] have lr: "length rest < length cs" .
        show ?thesis
        proof (cases "skip_ws rest")
          case Nil
          with Cons True Inr kr show ?thesis by simp
        next
          case c2: (Cons c' cs')
          from skip_ws_Cons_length [OF c2] have l2: "length cs' < length rest" .
          show ?thesis
          proof (cases "c' = CHR '':''")
            case False
            with Cons True Inr kr c2 show ?thesis by simp
          next
            case colon: True
            from l2 lr lcs fuel have "2 * length cs' < n" by simp
            from IHv [OF this] have pv: "fuel_ok (parse_value n cs') cs'" .
            show ?thesis
            proof (cases "parse_value n cs'")
              case (Inl err)
              with pv Cons True Inr kr c2 colon show ?thesis by simp
            next
              case pr: (Inr vr)
              obtain v rest' where vr: "vr = (v, rest')" by (cases vr)
              with pv pr have l3: "length rest' < length cs'" by simp
              show ?thesis
              proof (cases "skip_ws rest'")
                case Nil
                with Cons True Inr kr c2 colon pr vr show ?thesis by simp
              next
                case c3: (Cons c'' cs'')
                from skip_ws_Cons_length [OF c3] have l4: "length cs'' < length rest'" .
                from l4 l3 l2 lr lcs fuel have "2 * length cs'' + 2 \<le> n" by simp
                from IHm [OF this, of "update_member key v acc"]
                have "fuel_ok (parse_members n (update_member key v acc) cs'') s"
                  by (rule fuel_ok_mono) (use l4 l3 l2 lr lcs in simp)
                with Cons True Inr kr c2 colon pr vr c3 l4 l3 l2 lr lcs show ?thesis by simp
              qed
            qed
          qed
        qed
      qed
    qed
  qed
  from v e m show ?case by blast
qed

text \<open>
  The bound on nested calls that \<open>JSON_parse\<close> starts with is never reached: whatever
  the text, the result is a value or an exception of JavaScript (or \<open>Unmodelled\<close>).
\<close>

lemma JSON_parse_fuel: "JSON_parse s \<noteq> Inl OutOfFuel"
proof -
  have "2 * length s < 2 * length s + 1" by simp
  with fuel_enough [of "2 * length s + 1"] have "fuel_ok (parse_value (2 * length s + 1) s) s"
    by blast
  then show ?thesis
    by (auto simp: JSON_parse_def fuel_ok_def split: sum.splits)
qed

subsection \<open>pushToInputPort followed by checkForEvent\<close>










subsection \<open>createUUID\<close>

lemma r_range:
  assumes "0 \<le> dt" "0 \<le> u" "u < 1"
  shows "0 \<le> js_trunc (js_rem (of_int dt + u * 16) 16)
       \<and> js_trunc (js_rem (of_int dt + u * 16) 16) < 16"
proof -
  let ?q = "of_int dt + u * 16 :: rat"
  from assms have q: "0 \<le> ?q" by simp
  then have "0 \<le> ?q / 16" by simp
  then have t: "js_trunc (?q / 16) = \<lfloor>?q / 16\<rfloor>" by (simp add: js_trunc_def)
  have lo: "of_int \<lfloor>?q / 16\<rfloor> \<le> ?q / 16" by (rule of_int_floor_le)
  have hi: "?q / 16 < of_int \<lfloor>?q / 16\<rfloor> + 1" by linarith
  have rem: "js_rem ?q 16 = ?q - 16 * of_int \<lfloor>?q / 16\<rfloor>"
    by (simp only: js_rem_def t)
  from lo hi have b: "0 \<le> js_rem ?q 16 \<and> js_rem ?q 16 < 16"
    unfolding rem by (simp add: field_simps)
  then have "js_trunc (js_rem ?q 16) = \<lfloor>js_rem ?q 16\<rfloor>" by (simp add: js_trunc_def)
  moreover from b have "0 \<le> \<lfloor>js_rem ?q 16\<rfloor>" by simp
  moreover from b have "\<lfloor>js_rem ?q 16\<rfloor> < 16" by (simp add: floor_less_iff)
  ultimately show ?thesis by simp
qed

lemma hex_digit_one:
  assumes "0 \<le> r" "r < 16"
  shows "\<exists>c. Number_toString 16 r = [c] \<and> lower_hex c"
proof -
  from assms have "r \<in> {0,1,2,3,4,5,6,7,8,9,10,11,12,13,14,15}"
    by (simp only: insert_iff empty_iff) arith
  then show ?thesis
    by (auto simp: Number_toString_def digit_char_def lower_hex_def nat_digits.simps)
qed

lemma hex_digit_y:
  assumes "0 \<le> r" "r < 16"
  shows "\<exists>c. Number_toString 16 ((r AND 3) OR 8) = [c] \<and> c \<in> set ''89ab''"
proof -
  from assms have "r \<in> {0,1,2,3,4,5,6,7,8,9,10,11,12,13,14,15}" by (simp only: insert_iff empty_iff) arith
  then show ?thesis
    by (auto simp: Number_toString_def digit_char_def nat_digits.simps)
qed

lemma replace_xy_rel:
  assumes "\<And>k. 0 \<le> random k \<and> random k < 1"
  shows "0 \<le> dt \<Longrightarrow> list_all2 uuid_rel tmpl (replace_xy random k dt tmpl)"
proof (induction tmpl arbitrary: k dt)
  case Nil
  then show ?case by simp
next
  case (Cons c cs)
  let ?r = "js_trunc (js_rem (of_int dt + random k * 16) 16)"
  from Cons.prems assms [of k] have r: "0 \<le> ?r \<and> ?r < 16"
    by (intro r_range) auto
  from Cons.prems have dt': "0 \<le> \<lfloor>(of_int dt :: rat) / 16\<rfloor>" by simp
  show ?case
  proof (cases "c = CHR ''x''")
    case True
    from r hex_digit_one [of ?r] obtain d where "Number_toString 16 ?r = [d]" "lower_hex d"
      by blast
    with True Cons.IH [OF dt'] show ?thesis
      by (simp add: uuid_digit_def Let_def uuid_rel_def)
  next
    case nx: False
    show ?thesis
    proof (cases "c = CHR ''y''")
      case True
      from r hex_digit_y [of ?r] obtain d
        where "Number_toString 16 ((?r AND 3) OR 8) = [d]" "d \<in> set ''89ab''"
        by blast
      with True Cons.IH [OF dt'] show ?thesis
        by (simp add: uuid_digit_def Let_def uuid_rel_def)
    next
      case False
      with nx Cons.IH [OF Cons.prems] show ?thesis
        by (simp add: uuid_rel_def)
    qed
  qed
qed



lemma template_nth_all:
  "\<forall>i \<in> set [0..<36].
   ''xxxxxxxx-xxxx-4xxx-yxxx-xxxxxxxxxxxx'' ! i =
     (if i = 8 \<or> i = 13 \<or> i = 18 \<or> i = 23 then CHR ''-''
      else if i = 14 then CHR ''4'' else if i = 19 then CHR ''y'' else CHR ''x'')"
  by code_simp

lemma template_nth:
  "i < 36 \<Longrightarrow>
   ''xxxxxxxx-xxxx-4xxx-yxxx-xxxxxxxxxxxx'' ! i =
     (if i = 8 \<or> i = 13 \<or> i = 18 \<or> i = 23 then CHR ''-''
      else if i = 14 then CHR ''4'' else if i = 19 then CHR ''y'' else CHR ''x'')"
proof -
  assume "i < 36"
  then have "i \<in> set [0..<36]" by simp
  with template_nth_all show ?thesis by (rule bspec)
qed

text \<open>
  C10 (as amended): for every clock value that is not negative and every sequence of
  values of the random source in [0, 1), createUUID returns a 36-character string with
  hyphens at indices 8, 13, 18 and 23, every other character a lowercase hexadecimal
  digit, the character at index 14 equal to 4, and the character at index 19 one of 8, 9,
  a, b.
\<close>

theorem createUUID_shape:
  assumes "0 \<le> now" and "\<And>k. 0 \<le> random k \<and> random k < 1"
  shows "length (createUUID now random) = 36
     \<and> (\<forall>i<36. if i = 8 \<or> i = 13 \<or> i = 18 \<or> i = 23
                then createUUID now random ! i = CHR ''-''
                else lower_hex (createUUID now random ! i))
     \<and> createUUID now random ! 14 = CHR ''4''
     \<and> createUUID now random ! 19 \<in> set ''89ab''"
proof -
  let ?t = "''xxxxxxxx-xxxx-4xxx-yxxx-xxxxxxxxxxxx''"
  let ?u = "createUUID now random"
  have rel: "list_all2 uuid_rel ?t ?u"
    unfolding createUUID_def using assms(2) assms(1) by (rule replace_xy_rel)
  then have len: "length ?u = 36"
    by (simp add: list_all2_lengthD [symmetric])
  have nth: "uuid_rel (?t ! i) (?u ! i)" if "i < 36" for i
    using rel that by (simp add: list_all2_conv_all_nth)
  have a: "if i = 8 \<or> i = 13 \<or> i = 18 \<or> i = 23 then ?u ! i = CHR ''-'' else lower_hex (?u ! i)"
    if "i < 36" for i
    using nth [OF that] template_nth [OF that]
    by (auto simp: uuid_rel_def lower_hex_def split: if_splits)
  have b: "?u ! 14 = CHR ''4''"
    using nth [of 14] template_nth [of 14] by (simp add: uuid_rel_def)
  have c: "?u ! 19 \<in> set ''89ab''"
    using nth [of 19] template_nth [of 19] by (simp add: uuid_rel_def)
  from len a b c show ?thesis by blast
qed

lemma uuid_steps_pos:
  "uuid_digit 1700000000000 (1 / 3) (CHR ''x'') = (''5'', 106250000000)"
  "uuid_digit 106250000000 (1 / 3) (CHR ''x'') = (''5'', 6640625000)"
  "uuid_digit 6640625000 (1 / 3) (CHR ''x'') = (''d'', 415039062)"
  "uuid_digit 415039062 (1 / 3) (CHR ''x'') = (''b'', 25939941)"
  "uuid_digit 25939941 (1 / 3) (CHR ''x'') = (''a'', 1621246)"
  "uuid_digit 1621246 (1 / 3) (CHR ''x'') = (''3'', 101327)"
  "uuid_digit 101327 (1 / 3) (CHR ''x'') = (''4'', 6332)"
  "uuid_digit 6332 (1 / 3) (CHR ''x'') = (''1'', 395)"
  "uuid_digit 395 (1 / 3) (CHR ''x'') = (''0'', 24)"
  "uuid_digit 24 (1 / 3) (CHR ''x'') = (''d'', 1)"
  "uuid_digit 1 (1 / 3) (CHR ''x'') = (''6'', 0)"
  "uuid_digit 0 (1 / 3) (CHR ''x'') = (''5'', 0)"
  "uuid_digit 0 (1 / 3) (CHR ''y'') = (''9'', 0)"
  by code_simp+

lemma uuid_steps_neg:
  "uuid_digit (- 20) 0 (CHR ''x'') = (''-4'', (- 2))"
  "uuid_digit (- 2) 0 (CHR ''x'') = (''-2'', (- 1))"
  "uuid_digit (- 1) 0 (CHR ''x'') = (''-1'', (- 1))"
  "uuid_digit (- 1) 0 (CHR ''y'') = (''b'', (- 1))"
  by code_simp+

lemma createUUID_pos_value:
  "createUUID 1700000000000 (\<lambda>k. 1 / 3) = ''55dba341-0d65-4555-9555-555555555555''"
  by (simp add: createUUID_def uuid_steps_pos)

theorem createUUID_shape_witness:
  "createUUID 1700000000000 (\<lambda>k. 1 / 3) = ''55dba341-0d65-4555-9555-555555555555''
   \<and> length (createUUID 1700000000000 (\<lambda>k. 1 / 3)) = 36
   \<and> createUUID 1700000000000 (\<lambda>k. 1 / 3) ! 14 = CHR ''4''
   \<and> createUUID 1700000000000 (\<lambda>k. 1 / 3) ! 19 \<in> set ''89ab''"
proof -
  have "(0::int) \<le> 1700000000000" by simp
  moreover have "\<And>k::nat. (0::rat) \<le> 1 / 3 \<and> (1::rat) / 3 < 1" by simp
  ultimately show ?thesis
    using createUUID_shape [of 1700000000000 "\<lambda>k. 1 / 3"] createUUID_pos_value by simp
qed

text \<open>
  C10 as stated, for every clock value, fails: at a negative clock value (here 20 ms
  before the epoch) the remainder is negative, \<open>toString(16)\<close> writes a minus sign, and the
  result is longer than 36 characters.
\<close>

theorem createUUID_negative_clock:
  "length (createUUID (- 20) (\<lambda>k. 0)) \<noteq> 36"
  by (simp add: createUUID_def uuid_steps_neg)


end
